theory Spec2Isabelle
  imports Main "HOL-Library.Word" "HOL-Library.Sublist"
begin

unbundle bit_operations_syntax

section \<open>Event browser: data\<close>

text \<open>
  Every row of the event tree carries an \<^verbatim>\<open>EventItemTag\<close>: the event ID of the row, the
  last event ID the row stands for, and three flags that choose the row's icon. Event IDs
  are \<^verbatim>\<open>uint32_t\<close>. The tag's \<^verbatim>\<open>duration\<close> is a floating-point time that only the
  duration column reads; it is left out. The field \<^verbatim>\<open>find\<close> is called \<open>find_tag\<close>
  here.
\<close>

record EventItemTag =
  EID :: "32 word"
  lastEID :: "32 word"
  current :: bool
  find_tag :: bool
  bookmark :: bool

text \<open>The three constructors of the tag: default, one event, a range of events.\<close>

definition EventItemTag0 :: EventItemTag where
  "EventItemTag0 = \<lparr>EID = 0, lastEID = 0, current = False, find_tag = False, bookmark = False\<rparr>"

definition EventItemTag2 :: "32 word \<Rightarrow> 32 word \<Rightarrow> EventItemTag" where
  "EventItemTag2 ev lastEventID =
     \<lparr>EID = ev, lastEID = lastEventID, current = False, find_tag = False, bookmark = False\<rparr>"

definition EventItemTag1 :: "32 word \<Rightarrow> EventItemTag" where
  "EventItemTag1 ev = EventItemTag2 ev ev"

text \<open>
  A tree row (\<^verbatim>\<open>RDTreeWidgetItem\<close>) has the text of its three columns (name, EID,
  duration), an icon in the name column, its tag and its child rows in order. A row that
  never had a tag set answers \<^verbatim>\<open>tag().value<EventItemTag>()\<close> with the default tag.
\<close>

datatype Icon = NoIcon | flag_green | asterisk_orange | find_icon

datatype RDTreeWidgetItem =
  Item (text_name: string) (text_eid: string) (text_duration: string)
       (icon: Icon) (tag: EventItemTag) (childItems: "RDTreeWidgetItem list")

text \<open>
  A draw call as the replay hands it over. Only the fields the browser's indexing reads
  are kept. \<open>flags\<close> is the \<^verbatim>\<open>DrawFlags\<close> bit set; the enumeration itself is declared
  outside these sources, so the functions below take the \<^verbatim>\<open>DrawFlags::SetMarker\<close> mask
  as a parameter.
\<close>

datatype DrawcallDescription =
  Draw (eventID: "32 word") (name: string) (flags: "32 word")
       (children: "DrawcallDescription list")

text \<open>
  A pointer to a row is the path to it from the widget's invisible root: the index of
  the top-level item, then child indices. Searches never change the tree, so a pointer
  found by a search travels with the row it points to (\<open>NodeRef\<close>); \<open>None\<close> is
  \<^verbatim>\<open>NULL\<close>.
\<close>

type_synonym ItemPtr = "nat list"
type_synonym NodeRef = "ItemPtr \<times> RDTreeWidgetItem"

text \<open>What C++ leaves undefined is an error value here.\<close>

datatype error = NullPointer | DanglingPointer | IndexOutOfRange

record QToolButton =
  button_text :: string
  checkable :: bool
  autoRaise :: bool
  eid_property :: "32 word"
  checked :: bool

text \<open>
  The state the browser's functions read and write: what the capture context answers
  (\<^verbatim>\<open>LogLoaded()\<close>, \<^verbatim>\<open>CurEvent()\<close>, the frame number), the tree widget (top-level
  items, current and selected item, expanded rows, the row last scrolled to), the find box
  and the bookmarks. The seven tool buttons are enabled and disabled together, so one flag
  stands for them.
\<close>

record EventBrowser =
  LogLoaded :: bool
  CurEvent :: "32 word"
  frameNumber :: "32 word"
  events :: "RDTreeWidgetItem list"
  currentItem :: "ItemPtr option"
  selectedItem :: "ItemPtr option"
  expanded :: "ItemPtr set"
  scrolledTo :: "ItemPtr option"
  toolbarEnabled :: bool
  findEvent_text :: string
  findEvent_styleSheet :: string
  m_Bookmarks :: "32 word list"
  m_BookmarkButtons :: "QToolButton list"
  bookmarkStrip_visible :: bool

section \<open>Event browser: the toolkit's helpers\<close>

text \<open>Decimal text of a number, as \<^verbatim>\<open>QString::number\<close> and \<^verbatim>\<open>QFormatStr("%1").arg(n)\<close> give it.\<close>

definition digit :: "nat \<Rightarrow> char" where
  "digit n = char_of (48 + n)"

function number :: "nat \<Rightarrow> string" where
  "number n = (if n < 10 then [digit n] else number (n div 10) @ [digit (n mod 10)])"
  by pat_completeness auto
termination
  by (relation "measure id") auto

text \<open>\<^verbatim>\<open>QFormatStr("%1-%2").arg(a).arg(b)\<close>\<close>

definition range_text :: "32 word \<Rightarrow> 32 word \<Rightarrow> string" where
  "range_text a b = number (unat a) @ ''-'' @ number (unat b)"

text \<open>
  \<^verbatim>\<open>str.contains(sub, Qt::CaseInsensitive)\<close>: \<open>sub\<close> occurs in \<open>str\<close> once both are
  folded to lower case (the letters A to Z; strings here are byte strings).
\<close>

definition toLower :: "char \<Rightarrow> char" where
  "toLower c = (let k = of_char c :: nat in if 65 \<le> k \<and> k \<le> 90 then char_of (k + 32) else c)"

definition contains :: "string \<Rightarrow> string \<Rightarrow> bool" where
  "contains str sub = sublist (map toLower sub) (map toLower str)"

text \<open>\<^verbatim>\<open>QList::indexOf\<close> (first position, \<open>None\<close> for -1) and \<^verbatim>\<open>QList::removeAt\<close>.\<close>

fun indexOf :: "'a list \<Rightarrow> 'a \<Rightarrow> nat option" where
  "indexOf [] x = None"
| "indexOf (y # ys) x = (if y = x then Some 0 else map_option Suc (indexOf ys x))"

definition removeAt :: "nat \<Rightarrow> 'a list \<Rightarrow> 'a list" where
  "removeAt i xs = take i xs @ drop (Suc i) xs"

text \<open>The setters of a row.\<close>

fun setText_eid :: "RDTreeWidgetItem \<Rightarrow> string \<Rightarrow> RDTreeWidgetItem" where
  "setText_eid (Item n e d i t cs) s = Item n s d i t cs"

fun setTag :: "RDTreeWidgetItem \<Rightarrow> EventItemTag \<Rightarrow> RDTreeWidgetItem" where
  "setTag (Item n e d i t cs) t' = Item n e d i t' cs"

fun setIcon :: "RDTreeWidgetItem \<Rightarrow> Icon \<Rightarrow> RDTreeWidgetItem" where
  "setIcon (Item n e d i t cs) i' = Item n e d i' t cs"

fun setChildItems :: "RDTreeWidgetItem \<Rightarrow> RDTreeWidgetItem list \<Rightarrow> RDTreeWidgetItem" where
  "setChildItems (Item n e d i t cs) cs' = Item n e d i t cs'"

fun addChild :: "RDTreeWidgetItem \<Rightarrow> RDTreeWidgetItem \<Rightarrow> RDTreeWidgetItem" where
  "addChild (Item n e d i t cs) c = Item n e d i t (cs @ [c])"

text \<open>Reading the row a pointer points to, and writing through a pointer.\<close>

fun item_at :: "RDTreeWidgetItem list \<Rightarrow> ItemPtr \<Rightarrow> RDTreeWidgetItem option" where
  "item_at xs [] = None"
| "item_at xs [i] = (if i < length xs then Some (xs ! i) else None)"
| "item_at xs (i # p) = (if i < length xs then item_at (childItems (xs ! i)) p else None)"

fun update_at ::
  "ItemPtr \<Rightarrow> (RDTreeWidgetItem \<Rightarrow> RDTreeWidgetItem) \<Rightarrow> RDTreeWidgetItem list
     \<Rightarrow> RDTreeWidgetItem list" where
  "update_at [] f xs = xs"
| "update_at [i] f xs = (if i < length xs then xs[i := f (xs ! i)] else xs)"
| "update_at (i # p) f xs =
     (if i < length xs
      then xs[i := setChildItems (xs ! i) (update_at p f (childItems (xs ! i)))]
      else xs)"

text \<open>
  \<^verbatim>\<open>ui->events->topLevelItem(index)\<close>. \<^verbatim>\<open>FindEvent\<close> tests its result against
  \<^verbatim>\<open>NULL\<close>, so an index with no item answers \<^verbatim>\<open>NULL\<close>.
\<close>

definition topLevelItem :: "EventBrowser \<Rightarrow> nat \<Rightarrow> NodeRef option" where
  "topLevelItem s index =
     (if index < length (events s) then Some ([index], events s ! index) else None)"

text \<open>\<^verbatim>\<open>node->parent()\<close>: a top-level item has none.\<close>

definition parent_ptr :: "ItemPtr \<Rightarrow> ItemPtr option" where
  "parent_ptr p = (if length p \<le> 1 then None else Some (butlast p))"

section \<open>Event browser: building the tree\<close>

text \<open>
  \<^verbatim>\<open>AddDrawcalls(parent, draws)\<close>. The loop variable \<^verbatim>\<open>lastEID\<close> starts at 0 and is
  returned after the last round; \<open>AddDrawcalls_loop\<close> is the loop from some round on,
  with the draws still to come, so \<^verbatim>\<open>draws[i]\<close> is the head of the list and
  \<^verbatim>\<open>i + 1 < draws.count\<close> says that the rest is not empty. Each round builds the child
  row, recurses into the draw's children, rewrites the EID column when the children
  returned a larger event ID, settles \<^verbatim>\<open>lastEID\<close>, tags the row and appends it to the
  parent. Row colours (floating-point marker colours) are not modelled: they touch neither
  text, tag nor children.
\<close>

fun AddDrawcalls_loop ::
  "32 word \<Rightarrow> RDTreeWidgetItem \<Rightarrow> 32 word \<Rightarrow> DrawcallDescription list
     \<Rightarrow> RDTreeWidgetItem \<times> 32 word" where
  "AddDrawcalls_loop SetMarker parent lastE [] = (parent, lastE)"
| "AddDrawcalls_loop SetMarker parent lastE (Draw eid nm fl ch # rest) =
     (let child0 = Item nm (number (unat eid)) ''0.0'' NoIcon EventItemTag0 [];
          (child1, l0) = AddDrawcalls_loop SetMarker child0 0 ch;
          child2 = (if l0 > eid then setText_eid child1 (range_text eid l0) else child1);
          l1 = (if l0 = 0
                then (if fl AND SetMarker \<noteq> 0 \<and> rest \<noteq> [] then eventID (hd rest) else eid)
                else l0);
          child3 = setTag child2 (EventItemTag2 eid l1)
      in AddDrawcalls_loop SetMarker (addChild parent child3) l1 rest)"

definition AddDrawcalls ::
  "32 word \<Rightarrow> RDTreeWidgetItem \<Rightarrow> DrawcallDescription list \<Rightarrow> RDTreeWidgetItem \<times> 32 word" where
  "AddDrawcalls SetMarker parent draws = AddDrawcalls_loop SetMarker parent 0 draws"

section \<open>Event browser: bookmarks\<close>

definition clearBookmarks :: "EventBrowser \<Rightarrow> EventBrowser" where
  "clearBookmarks s = s\<lparr>m_Bookmarks := [], m_BookmarkButtons := [], bookmarkStrip_visible := False\<rparr>"

definition highlightBookmarks :: "EventBrowser \<Rightarrow> EventBrowser" where
  "highlightBookmarks s =
     s\<lparr>m_BookmarkButtons :=
         map (\<lambda>b. if eid_property b = CurEvent s then b\<lparr>checked := True\<rparr> else b\<lparr>checked := False\<rparr>)
           (m_BookmarkButtons s)\<rparr>"

definition RefreshIcon :: "RDTreeWidgetItem \<Rightarrow> EventItemTag \<Rightarrow> RDTreeWidgetItem" where
  "RefreshIcon item t =
     (if current t then setIcon item flag_green
      else if bookmark t then setIcon item asterisk_orange
      else if find_tag t then setIcon item find_icon
      else setIcon item NoIcon)"

text \<open>
  \<^verbatim>\<open>OnLogfileLoaded\<close>: the frame row with its "Frame Start" child and the rows of the
  capture's draw calls (\<^verbatim>\<open>m_Ctx.CurDrawcalls()\<close>, here \<open>draws\<close>), appended to the
  widget and expanded. \<^verbatim>\<open>m_Ctx.SetEventID({this}, lastEID, lastEID)\<close> makes \<open>lastEID\<close>
  the context's current event without calling this browser back.
\<close>

definition OnLogfileLoaded ::
  "32 word \<Rightarrow> EventBrowser \<Rightarrow> DrawcallDescription list \<Rightarrow> EventBrowser" where
  "OnLogfileLoaded SetMarker s draws =
     (let frame0 = Item (''Frame #'' @ number (unat (frameNumber s))) [] [] NoIcon EventItemTag0 [];
          s1 = clearBookmarks s;
          framestart = setTag (Item ''Frame Start'' ''0'' [] NoIcon EventItemTag0 []) EventItemTag0;
          frame1 = addChild frame0 framestart;
          (frame2, l) = AddDrawcalls SetMarker frame1 draws;
          frame3 = setTag frame2 (EventItemTag2 0 l)
      in s1\<lparr>events := events s1 @ [frame3],
            expanded := insert [length (events s1)] (expanded s1),
            toolbarEnabled := True,
            CurEvent := l\<rparr>)"

definition OnLogfileClosed :: "EventBrowser \<Rightarrow> EventBrowser" where
  "OnLogfileClosed s = (clearBookmarks s)\<lparr>events := [], toolbarEnabled := False\<rparr>"

section \<open>Event browser: finding the row of an event\<close>

text \<open>
  \<^verbatim>\<open>FindEventNode(found, parent, eventID)\<close> walks the children of \<open>parent\<close> from the last
  to the first. \<open>FindEventNode_loop\<close> is that loop over the children still to visit, last
  child first: the head of the list is \<^verbatim>\<open>parent->child(i)\<close> with \<open>i\<close> the number of
  children before it. \<open>found\<close> is passed by reference in the source and comes back as the
  first component of the result; the second is the returned flag.
\<close>

text \<open>Both searches below recurse into the children of a row, which are smaller than the row.\<close>

lemma size_list_rev: "size_list f (rev xs) = size_list f xs"
  by (induction xs) simp_all

lemma size_childItems: "size_list size (childItems n) < size n"
  by (cases n) simp

function FindEventNode_loop ::
  "NodeRef option \<Rightarrow> ItemPtr \<Rightarrow> RDTreeWidgetItem list \<Rightarrow> 32 word \<Rightarrow> NodeRef option \<times> bool" where
  "FindEventNode_loop found parent [] ev = (found, False)"
| "FindEventNode_loop found parent (n # rest) ev =
     (let i = length rest;
          nEID = lastEID (tag n);
          fEID = (case found of None \<Rightarrow> 0 | Some (fp, f) \<Rightarrow> lastEID (tag f));
          found1 = (if nEID \<ge> ev \<and> (found = None \<or> nEID \<le> fEID)
                    then Some (parent @ [i], n) else found)
      in if nEID = ev \<and> childItems n = [] then (found1, True)
         else if childItems n \<noteq> []
         then (let (found2, exact) =
                      FindEventNode_loop found1 (parent @ [i]) (rev (childItems n)) ev
               in if exact then (found2, True)
                  else FindEventNode_loop found2 parent rest ev)
         else FindEventNode_loop found1 parent rest ev)"
  by pat_completeness auto

termination
  by (relation "measure (\<lambda>(found, parent, ns, ev). size_list size ns)")
     (auto simp: size_list_rev intro: less_SucI trans_less_add1 size_childItems)

definition FindEventNode ::
  "NodeRef option \<Rightarrow> NodeRef \<Rightarrow> 32 word \<Rightarrow> NodeRef option \<times> bool" where
  "FindEventNode found parent ev =
     FindEventNode_loop found (fst parent) (rev (childItems (snd parent))) ev"

text \<open>
  \<^verbatim>\<open>ExpandNode(node)\<close> expands the row and every ancestor, then scrolls to the row.
\<close>

function ExpandNode_loop :: "ItemPtr option \<Rightarrow> ItemPtr set \<Rightarrow> ItemPtr set" where
  "ExpandNode_loop None ex = ex"
| "ExpandNode_loop (Some p) ex = ExpandNode_loop (parent_ptr p) (insert p ex)"
  by pat_completeness auto
termination
  by (relation "measure (\<lambda>(node, ex). case node of None \<Rightarrow> 0 | Some p \<Rightarrow> Suc (length p))")
     (auto simp: parent_ptr_def)

definition ExpandNode :: "EventBrowser \<Rightarrow> ItemPtr option \<Rightarrow> EventBrowser" where
  "ExpandNode s node =
     s\<lparr>expanded := ExpandNode_loop node (expanded s),
       scrolledTo := (if node \<noteq> None then node else scrolledTo s)\<rparr>"

text \<open>
  \<^verbatim>\<open>SelectEvent(eventID)\<close>. With a log loaded and no top-level item the source would call
  \<^verbatim>\<open>FindEventNode\<close> on \<^verbatim>\<open>NULL\<close>. Signals the widget emits when its current item
  changes belong to the toolkit and are not part of this function.
\<close>

definition SelectEvent :: "EventBrowser \<Rightarrow> 32 word \<Rightarrow> error + (bool \<times> EventBrowser)" where
  "SelectEvent s ev =
     (if \<not> LogLoaded s then Inr (False, s)
      else case topLevelItem s 0 of
             None \<Rightarrow> Inl NullPointer
           | Some frame \<Rightarrow>
               (let (found, exact) = FindEventNode None frame ev
                in case found of
                     Some (p, n) \<Rightarrow>
                       Inr (True, ExpandNode (s\<lparr>currentItem := Some p, selectedItem := Some p\<rparr>) (Some p))
                   | None \<Rightarrow> Inr (False, s)))"

section \<open>Event browser: find\<close>

text \<open>
  \<^verbatim>\<open>FindEvent(parent, filter, after, forward)\<close>. One loop serves both directions: it
  starts at the first or the last child and steps by +1 or -1; \<open>FindEvent_loop\<close> is that
  loop over the children still to visit, in visiting order (\<open>visit_order\<close>). The
  event ID is returned as \<^verbatim>\<open>(int)eid\<close>, and a result from below is passed up only when it
  is \<^verbatim>\<open>> 0\<close>.
\<close>

definition visit_order :: "bool \<Rightarrow> 'a list \<Rightarrow> 'a list" where
  "visit_order forward cs = (if forward then cs else rev cs)"

function FindEvent_loop :: "RDTreeWidgetItem list \<Rightarrow> string \<Rightarrow> 32 word \<Rightarrow> bool \<Rightarrow> int" where
  "FindEvent_loop [] flt after forward = -1"
| "FindEvent_loop (n # rest) flt after forward =
     (let eid = lastEID (tag n);
          matchesAfter = ((forward \<and> eid > after) \<or> (\<not> forward \<and> eid < after))
      in if matchesAfter \<and> contains (text_name n) flt then sint eid
         else if childItems n \<noteq> []
         then (let found = FindEvent_loop (visit_order forward (childItems n)) flt after forward
               in if found > 0 then found
                  else FindEvent_loop rest flt after forward)
         else FindEvent_loop rest flt after forward)"
  by pat_completeness auto
termination
  by (relation "measure (\<lambda>(ns, flt, after, forward). size_list size ns)")
     (auto simp: visit_order_def size_list_rev intro: less_SucI trans_less_add1 size_childItems)

definition FindEvent_node :: "RDTreeWidgetItem option \<Rightarrow> string \<Rightarrow> 32 word \<Rightarrow> bool \<Rightarrow> int" where
  "FindEvent_node parent flt after forward =
     (case parent of
        None \<Rightarrow> -1
      | Some p \<Rightarrow> FindEvent_loop (visit_order forward (childItems p)) flt after forward)"

definition FindEvent :: "EventBrowser \<Rightarrow> string \<Rightarrow> 32 word \<Rightarrow> bool \<Rightarrow> int" where
  "FindEvent s flt after forward =
     (if \<not> LogLoaded s then 0
      else FindEvent_node (map_option snd (topLevelItem s 0)) flt after forward)"

text \<open>
  \<^verbatim>\<open>Find(forward)\<close>. The search starts from the selected row's \<^verbatim>\<open>lastEID\<close>, or from the
  context's current event when no row is selected; when it finds nothing it is repeated
  from 0 (forward) or from \<^verbatim>\<open>~0U\<close> (backward). The find box turns red when both fail.
\<close>

definition red_styleSheet :: string where
  "red_styleSheet = ''QLineEdit{background-color:#ff0000;}''"

definition Find_select :: "EventBrowser \<Rightarrow> int \<Rightarrow> error + EventBrowser" where
  "Find_select s eid =
     (case SelectEvent s (word_of_int eid) of
        Inl e \<Rightarrow> Inl e
      | Inr (ok, s') \<Rightarrow> Inr (s'\<lparr>findEvent_styleSheet := []\<rparr>))"

definition Find :: "EventBrowser \<Rightarrow> bool \<Rightarrow> error + EventBrowser" where
  "Find s forward =
     (if findEvent_text s = [] then Inr s
      else case (case selectedItem s of
                   None \<Rightarrow> Some (CurEvent s)
                 | Some p \<Rightarrow> map_option (\<lambda>node. lastEID (tag node)) (item_at (events s) p)) of
             None \<Rightarrow> Inl DanglingPointer
           | Some curEID \<Rightarrow>
               (let eid = FindEvent s (findEvent_text s) curEID forward
                in if eid \<ge> 0 then Find_select s eid
                   else (let eid = FindEvent s (findEvent_text s) (if forward then 0 else NOT 0) forward
                         in if eid \<ge> 0 then Find_select s eid
                            else Inr (s\<lparr>findEvent_styleSheet := red_styleSheet\<rparr>))))"

text \<open>
  \<^verbatim>\<open>SetFindIcons(filter)\<close> counts the rows below the top-level item whose name contains
  the filter (and marks them); \<^verbatim>\<open>findHighlight_timeout\<close> turns the find box red when
  the count is 0. Only the count is modelled.
\<close>

fun SetFindIcons_count :: "RDTreeWidgetItem list \<Rightarrow> string \<Rightarrow> int" where
  "SetFindIcons_count [] flt = 0"
| "SetFindIcons_count (Item n e d i t cs # rest) flt =
     (if contains n flt then 1 else 0) + SetFindIcons_count cs flt + SetFindIcons_count rest flt"

section \<open>Event browser: toggling a bookmark\<close>

text \<open>
  \<^verbatim>\<open>toggleBookmark(EID)\<close>. The row of the event is looked up first (on \<^verbatim>\<open>NULL\<close> when
  the widget has no top-level item). A bookmarked event loses its button and its entry at
  the position \<^verbatim>\<open>indexOf\<close> gave; another event gets a new button and a new entry at the
  end. The row found, if any, has its \<open>bookmark\<close> flag and icon updated. Last, the strip is
  shown exactly when buttons remain. The placement of the button in the strip's layout is
  not modelled.
\<close>

definition set_bookmark_flag :: "bool \<Rightarrow> RDTreeWidgetItem \<Rightarrow> RDTreeWidgetItem" where
  "set_bookmark_flag b item =
     (let t = (tag item)\<lparr>bookmark := b\<rparr> in RefreshIcon (setTag item t) t)"

definition toggleBookmark :: "EventBrowser \<Rightarrow> 32 word \<Rightarrow> error + EventBrowser" where
  "toggleBookmark s ev =
     (case topLevelItem s 0 of
        None \<Rightarrow> Inl NullPointer
      | Some frame \<Rightarrow>
          (let index = indexOf (m_Bookmarks s) ev;
               (found, exact) = FindEventNode None frame ev
           in case index of
                Some i \<Rightarrow>
                  if i < length (m_BookmarkButtons s)
                  then (let s1 = s\<lparr>m_BookmarkButtons := removeAt i (m_BookmarkButtons s),
                                    m_Bookmarks := removeAt i (m_Bookmarks s)\<rparr>;
                            s2 = (case found of
                                    None \<Rightarrow> s1
                                  | Some (p, n) \<Rightarrow>
                                      s1\<lparr>events := update_at p (set_bookmark_flag False) (events s1)\<rparr>)
                        in Inr (s2\<lparr>bookmarkStrip_visible := (m_BookmarkButtons s2 \<noteq> [])\<rparr>))
                  else Inl IndexOutOfRange
              | None \<Rightarrow>
                  (let but = \<lparr>button_text = number (unat ev), checkable = True, autoRaise = True,
                              eid_property = ev, checked = False\<rparr>;
                       s1 = s\<lparr>m_BookmarkButtons := m_BookmarkButtons s @ [but],
                               m_Bookmarks := m_Bookmarks s @ [ev]\<rparr>;
                       s2 = highlightBookmarks s1;
                       s3 = (case found of
                               None \<Rightarrow> s2
                             | Some (p, n) \<Rightarrow>
                                 s2\<lparr>events := update_at p (set_bookmark_flag True) (events s2)\<rparr>)
                   in Inr (s3\<lparr>bookmarkStrip_visible := (m_BookmarkButtons s3 \<noteq> [])\<rparr>))))"

section \<open>Pipeline state viewer: which resource rows are shown\<close>

text \<open>
  \<^verbatim>\<open>D3D12PipelineStateViewer::showNode(bool usedSlot, bool filledSlot)\<close> reads the two
  check boxes \<^verbatim>\<open>ui->showDisabled\<close> and \<^verbatim>\<open>ui->showEmpty\<close> and then runs three
  tests in order, each returning true, before a final \<^verbatim>\<open>return false\<close>. The two check
  boxes are the only part of the user interface the function reads.
\<close>

record PipelineStateViewer_ui =
  showDisabled :: bool
  showEmpty :: bool

definition showNode :: "PipelineStateViewer_ui \<Rightarrow> bool \<Rightarrow> bool \<Rightarrow> bool" where
  "showNode ui usedSlot filledSlot =
     (if usedSlot then True
      else if showDisabled ui \<and> \<not> usedSlot \<and> filledSlot then True
      else if showEmpty ui \<and> \<not> filledSlot then True
      else False)"

section \<open>Vocabulary of the statements\<close>

text \<open>\<open>appendChildren parent rows\<close> is \<open>parent\<close> with \<open>rows\<close> added after its children.\<close>

fun appendChildren :: "RDTreeWidgetItem \<Rightarrow> RDTreeWidgetItem list \<Rightarrow> RDTreeWidgetItem" where
  "appendChildren (Item n e d i t cs) rows = Item n e d i t (cs @ rows)"

text \<open>
  The event IDs of a draw-call list in traversal order (a draw before its children, the
  children in order), and the precondition that they increase along it.
\<close>

fun eventIDs :: "DrawcallDescription \<Rightarrow> 32 word list" where
  "eventIDs (Draw eid nm fl ch) = eid # concat (map eventIDs ch)"

definition traversal :: "DrawcallDescription list \<Rightarrow> 32 word list" where
  "traversal draws = concat (map eventIDs draws)"

definition increasing :: "DrawcallDescription list \<Rightarrow> bool" where
  "increasing draws = sorted_wrt (<) (traversal draws)"

text \<open>
  \<open>tagged_rows SetMarker rows draws\<close>: the rows stand for the draws one for one, at every
  depth, and each row's tag and EID column are these. The tag's \<open>EID\<close> is the draw's event
  ID and is at most \<open>lastEID\<close>. For a draw without children, \<open>lastEID\<close> is the draw's own
  event ID, or the next sibling's when the draw is a \<open>SetMarker\<close> and has a next sibling,
  and the EID column shows the event ID alone, not the range. For a draw with children,
  \<open>lastEID\<close> is that of its last child's row and is larger than \<open>EID\<close>, and the EID column
  shows the range.
\<close>

fun tagged_rows ::
  "32 word \<Rightarrow> RDTreeWidgetItem list \<Rightarrow> DrawcallDescription list \<Rightarrow> bool" where
  "tagged_rows SetMarker [] [] = True"
| "tagged_rows SetMarker (Item n e du i t cs # rows) (Draw eid nm fl ch # rest) =
     (EID t = eid \<and> EID t \<le> lastEID t
      \<and> (if ch = []
          then lastEID t =
                 (if fl AND SetMarker \<noteq> 0 \<and> rest \<noteq> [] then eventID (hd rest) else eid)
               \<and> e = number (unat eid) \<and> e \<noteq> range_text eid (lastEID t)
          else lastEID t = lastEID (tag (last cs)) \<and> EID t < lastEID t
               \<and> e = range_text eid (lastEID t))
      \<and> tagged_rows SetMarker cs ch
      \<and> tagged_rows SetMarker rows rest)"
| "tagged_rows SetMarker _ _ = False"

text \<open>
  All rows of a subtree, the row itself first; \<open>below ns\<close> is the set of rows in the
  subtrees of \<open>ns\<close>, so \<open>below (childItems frame)\<close> is every row under the top-level item.
  \<open>nearest ev N f\<close>: among the rows \<open>N\<close>, \<open>f\<close> has the smallest \<open>lastEID\<close> that is at
  least \<open>ev\<close>. \<open>search_inv\<close> is what the search knows after visiting the rows \<open>V\<close>.
\<close>

fun allItems :: "RDTreeWidgetItem \<Rightarrow> RDTreeWidgetItem list" where
  "allItems (Item n e d i t cs) = Item n e d i t cs # concat (map allItems cs)"

definition below :: "RDTreeWidgetItem list \<Rightarrow> RDTreeWidgetItem set" where
  "below ns = (\<Union>n\<in>set ns. set (allItems n))"

definition nearest :: "32 word \<Rightarrow> RDTreeWidgetItem set \<Rightarrow> RDTreeWidgetItem \<Rightarrow> bool" where
  "nearest ev N f \<longleftrightarrow>
     f \<in> N \<and> ev \<le> lastEID (tag f)
     \<and> (\<forall>m\<in>N. ev \<le> lastEID (tag m) \<longrightarrow> lastEID (tag f) \<le> lastEID (tag m))"

definition search_inv ::
  "RDTreeWidgetItem list \<Rightarrow> 32 word \<Rightarrow> RDTreeWidgetItem set \<Rightarrow> NodeRef option \<Rightarrow> bool" where
  "search_inv tree ev V found =
     (case found of
        None \<Rightarrow> \<forall>m\<in>V. lastEID (tag m) < ev
      | Some (p, f) \<Rightarrow> item_at tree p = Some f \<and> nearest ev V f)"

text \<open>
  The browser as its constructor leaves it, and a small capture loaded into it: a marker,
  a pass with two draws (event 4 is missing on purpose), and a present.
\<close>

definition EventBrowser_init :: EventBrowser where
  "EventBrowser_init =
     \<lparr>LogLoaded = False, CurEvent = 0, frameNumber = 0, events = [], currentItem = None,
      selectedItem = None, expanded = {}, scrolledTo = None, toolbarEnabled = False,
      findEvent_text = [], findEvent_styleSheet = [], m_Bookmarks = [], m_BookmarkButtons = [],
      bookmarkStrip_visible = False\<rparr>"

definition demo_draws :: "DrawcallDescription list" where
  "demo_draws =
     [Draw 1 ''marker'' 16 [],
      Draw 2 ''shadow pass'' 32 [Draw 3 ''shadow draw'' 2 [], Draw 5 ''clear'' 1 []],
      Draw 6 ''present'' 2 []]"

definition demo_browser :: EventBrowser where
  "demo_browser = OnLogfileLoaded 16 (EventBrowser_init\<lparr>LogLoaded := True, frameNumber := 7\<rparr>) demo_draws"

definition demo_frame :: RDTreeWidgetItem where
  "demo_frame =
     Item ''Frame #7'' [] [] NoIcon (EventItemTag2 0 6)
       [Item ''Frame Start'' ''0'' [] NoIcon EventItemTag0 [],
        Item ''marker'' ''1'' ''0.0'' NoIcon (EventItemTag2 1 2) [],
        Item ''shadow pass'' ''2-5'' ''0.0'' NoIcon (EventItemTag2 2 5)
          [Item ''shadow draw'' ''3'' ''0.0'' NoIcon (EventItemTag2 3 3) [],
           Item ''clear'' ''5'' ''0.0'' NoIcon (EventItemTag2 5 5) []],
        Item ''present'' ''6'' ''0.0'' NoIcon (EventItemTag2 6 6) []]"

text \<open>
  The two bookmark lists are in step: as many buttons as bookmarked event IDs, and the
  button at each index carries the event ID at that index.
\<close>

definition bookmarks_aligned :: "EventBrowser \<Rightarrow> bool" where
  "bookmarks_aligned s \<longleftrightarrow>
     length (m_BookmarkButtons s) = length (m_Bookmarks s)
     \<and> (\<forall>i<length (m_Bookmarks s). eid_property (m_BookmarkButtons s ! i) = m_Bookmarks s ! i)"

text \<open>
  The order in which \<open>FindEvent\<close> visits rows: a row, then the rows of its subtree,
  children first to last when searching forward and last to first when searching
  backward. \<open>visits forward vs\<close> is the sequence for a list of rows already in visiting
  order. Forward, this is document order. \<open>hit\<close> is the test the search applies to a row;
  \<open>first_hit\<close> is the \<open>lastEID\<close> of the first row of a sequence that passes it, or -1
  (\<open>raw_hit\<close> is the same with the value as the \<^verbatim>\<open>(int)\<close> cast gives it).
  \<open>claimed_FindEvent\<close> is the claim as first stated: the first hit in document order,
  or in reverse document order when searching backward.
\<close>

fun visit :: "bool \<Rightarrow> RDTreeWidgetItem \<Rightarrow> RDTreeWidgetItem list" where
  "visit forward (Item n e d i t cs) =
     Item n e d i t cs # concat (visit_order forward (map (visit forward) cs))"

definition visits :: "bool \<Rightarrow> RDTreeWidgetItem list \<Rightarrow> RDTreeWidgetItem list" where
  "visits forward vs = concat (map (visit forward) vs)"

definition document_order :: "RDTreeWidgetItem list \<Rightarrow> RDTreeWidgetItem list" where
  "document_order ns = concat (map allItems ns)"

definition hit :: "string \<Rightarrow> 32 word \<Rightarrow> bool \<Rightarrow> RDTreeWidgetItem \<Rightarrow> bool" where
  "hit flt after forward n \<longleftrightarrow>
     ((forward \<and> lastEID (tag n) > after) \<or> (\<not> forward \<and> lastEID (tag n) < after))
     \<and> contains (text_name n) flt"

definition first_hit ::
  "string \<Rightarrow> 32 word \<Rightarrow> bool \<Rightarrow> RDTreeWidgetItem list \<Rightarrow> int" where
  "first_hit flt after forward ns =
     (case List.find (hit flt after forward) ns of
        None \<Rightarrow> -1
      | Some n \<Rightarrow> uint (lastEID (tag n)))"

definition claimed_FindEvent ::
  "RDTreeWidgetItem \<Rightarrow> string \<Rightarrow> 32 word \<Rightarrow> bool \<Rightarrow> int" where
  "claimed_FindEvent frame flt after forward =
     first_hit flt after forward
       (if forward then document_order (childItems frame)
        else rev (document_order (childItems frame)))"

definition raw_hit :: "string \<Rightarrow> 32 word \<Rightarrow> bool \<Rightarrow> RDTreeWidgetItem list \<Rightarrow> int" where
  "raw_hit flt after forward ns =
     (case List.find (hit flt after forward) ns of
        None \<Rightarrow> -1
      | Some n \<Rightarrow> sint (lastEID (tag n)))"

text \<open>The shape of a tree of rows and of a tree of draws: name, event ID, children in order.\<close>

datatype shape = Shape string "32 word" "shape list"

fun shape_item :: "RDTreeWidgetItem \<Rightarrow> shape" where
  "shape_item (Item n e d i t cs) = Shape n (EID t) (map shape_item cs)"

fun shape_draw :: "DrawcallDescription \<Rightarrow> shape" where
  "shape_draw (Draw eid nm fl ch) = Shape nm eid (map shape_draw ch)"

section \<open>The rows AddDrawcalls builds\<close>

lemma appendChildren_Nil [simp]: "appendChildren p [] = p"
  by (cases p) simp

lemma appendChildren_append [simp]:
  "appendChildren (appendChildren p xs) ys = appendChildren p (xs @ ys)"
  by (cases p) simp

lemma addChild_appendChildren: "addChild p c = appendChildren p [c]"
  by (cases p) simp

lemma childItems_appendChildren [simp]: "childItems (appendChildren p rows) = childItems p @ rows"
  by (cases p) simp

subsection \<open>Decimal text has no dash\<close>

lemma digit_not_dash: "n < 10 \<Longrightarrow> digit n \<noteq> CHR ''-''"
proof
  assume n: "n < 10" and "digit n = CHR ''-''"
  then have "of_char (digit n) = (of_char CHR ''-'' :: nat)" by simp
  with n show False by (simp add: digit_def)
qed

lemma number_no_dash: "CHR ''-'' \<notin> set (number n)"
proof (induction n rule: number.induct)
  case (1 n)
  show ?case
  proof (cases "n < 10")
    case True
    then show ?thesis using digit_not_dash[of n] by (subst number.simps) auto
  next
    case False
    then show ?thesis
      using "1.IH" digit_not_dash[of "n mod 10"] by (subst number.simps) auto
  qed
qed

lemma number_neq_range_text: "number n \<noteq> range_text a b"
proof
  assume "number n = range_text a b"
  then have "CHR ''-'' \<in> set (number n)" by (simp add: range_text_def)
  with number_no_dash show False by blast
qed

subsection \<open>Increasing event IDs\<close>

lemma traversal_Cons: "traversal (Draw eid nm fl ch # rest) = eid # traversal ch @ traversal rest"
  by (simp add: traversal_def)

lemma hd_traversal: "rest \<noteq> [] \<Longrightarrow> eventID (hd rest) \<in> set (traversal rest)"
  by (cases rest; cases "hd rest") (auto simp: traversal_def)

lemma last_traversal: "ch \<noteq> [] \<Longrightarrow> eventID (last ch) \<in> set (traversal ch)"
  by (cases "last ch") (use last_in_set[of ch] in \<open>force simp: traversal_def\<close>)

lemma increasing_Cons:
  assumes "increasing (Draw eid nm fl ch # rest)"
  shows "increasing ch" "increasing rest"
    "\<forall>x\<in>set (traversal ch). eid < x" "\<forall>x\<in>set (traversal rest). eid < x"
  using assms by (auto simp: increasing_def traversal_Cons sorted_wrt_append)

lemma tagged_rows_length: "tagged_rows sm rows draws \<Longrightarrow> length rows = length draws"
  by (induction sm rows draws rule: tagged_rows.induct) auto

lemma tagged_rows_last:
  "tagged_rows sm rows draws \<Longrightarrow> rows \<noteq> [] \<Longrightarrow>
     EID (tag (last rows)) = eventID (last draws)
     \<and> EID (tag (last rows)) \<le> lastEID (tag (last rows))"
proof (induction sm rows draws rule: tagged_rows.induct)
  case (2 SetMarker n e du i t cs rows eid nm fl ch rest)
  then show ?case
    by (cases "rows = []") (auto dest: tagged_rows_length)
qed auto

subsection \<open>The loop\<close>

lemma AddDrawcalls_loop_tagged:
  "increasing draws \<Longrightarrow>
   \<exists>rows. AddDrawcalls_loop sm parent l draws =
             (appendChildren parent rows, if draws = [] then l else lastEID (tag (last rows)))
          \<and> tagged_rows sm rows draws"
proof (induction sm parent l draws rule: AddDrawcalls_loop.induct)
  case (1 SetMarker parent lastE)
  show ?case by (rule exI[of _ "[]"]) simp
next
  case (2 SetMarker parent lastE eid nm fl ch rest)
  note inc = increasing_Cons[OF "2.prems"]
  define child0 where "child0 = Item nm (number (unat eid)) ''0.0'' NoIcon EventItemTag0 []"
  obtain rows_c where
    c: "AddDrawcalls_loop SetMarker child0 0 ch =
          (appendChildren child0 rows_c, if ch = [] then 0 else lastEID (tag (last rows_c)))"
    and tc: "tagged_rows SetMarker rows_c ch"
    using "2.IH"(1)[OF child0_def inc(1)] by blast
  define l0 where "l0 = (if ch = [] then 0 else lastEID (tag (last rows_c)))"
  define child1 where "child1 = appendChildren child0 rows_c"
  define child2 where
    "child2 = (if l0 > eid then setText_eid child1 (range_text eid l0) else child1)"
  define l1 where
    "l1 = (if l0 = 0
           then (if fl AND SetMarker \<noteq> 0 \<and> rest \<noteq> [] then eventID (hd rest) else eid)
           else l0)"
  define child3 where "child3 = setTag child2 (EventItemTag2 eid l1)"
  have l0_gt: "eid < l0" if "ch \<noteq> []"
  proof -
    from that tc have ne: "rows_c \<noteq> []" by (auto dest: tagged_rows_length)
    from tagged_rows_last[OF tc ne] last_traversal[OF that] inc(3) that
    show ?thesis by (auto simp: l0_def)
  qed
  have l0_ne: "l0 \<noteq> 0" if "ch \<noteq> []"
    using l0_gt[OF that] by (auto simp: word_gt_0)
  have rows_c_Nil: "rows_c = []" if "ch = []"
    using tc that by (auto dest: tagged_rows_length)
  obtain rows_r where
    r: "AddDrawcalls_loop SetMarker (addChild parent child3) l1 rest =
          (appendChildren (addChild parent child3) rows_r,
           if rest = [] then l1 else lastEID (tag (last rows_r)))"
    and tr: "tagged_rows SetMarker rows_r rest"
    using "2.IH"(2)[OF child0_def refl c[symmetric] refl refl refl inc(2)]
    unfolding child3_def child2_def child1_def l1_def l0_def by blast
  have rows_r_Nil: "rows_r = [] \<longleftrightarrow> rest = []"
    using tr by (auto dest: tagged_rows_length)
  have hd_gt: "eid < eventID (hd rest)" if "rest \<noteq> []"
    using hd_traversal[OF that] inc(4) by blast
  have l1_ge: "eid \<le> l1"
    using l0_gt hd_gt by (auto simp: l1_def l0_def dest: less_imp_le)
  have row: "tagged_rows SetMarker (child3 # rows_r) (Draw eid nm fl ch # rest)"
  proof (cases "ch = []")
    case True
    then show ?thesis
      using rows_c_Nil tr l1_ge number_neq_range_text
      by (simp add: child3_def child2_def child1_def child0_def l0_def l1_def EventItemTag2_def)
  next
    case False
    then show ?thesis
      using l0_gt l0_ne tc tr
      by (auto simp: child3_def child2_def child1_def child0_def l1_def EventItemTag2_def l0_def)
  qed
  have tag3: "lastEID (tag child3) = l1"
    by (cases child2) (simp add: child3_def EventItemTag2_def)
  have step: "AddDrawcalls_loop SetMarker parent lastE (Draw eid nm fl ch # rest) =
      AddDrawcalls_loop SetMarker (addChild parent child3) l1 rest"
    apply (subst AddDrawcalls_loop.simps(2))
    apply (fold child0_def)
    apply (unfold c Let_def prod.case)
    apply (fold l0_def child1_def)
    apply (fold child2_def l1_def)
    apply (fold child3_def)
    apply (rule refl)
    done
  have "AddDrawcalls_loop SetMarker parent lastE (Draw eid nm fl ch # rest) =
     (appendChildren parent (child3 # rows_r), lastEID (tag (last (child3 # rows_r))))"
    unfolding step r using rows_r_Nil
    by (simp add: addChild_appendChildren tag3)
  with row show ?case by (intro exI[of _ "child3 # rows_r"]) simp
qed

lemma AddDrawcalls_loop_shape:
  "\<exists>rows. AddDrawcalls_loop sm parent l draws =
             (appendChildren parent rows, if draws = [] then l else lastEID (tag (last rows)))
          \<and> map shape_item rows = map shape_draw draws"
proof (induction sm parent l draws rule: AddDrawcalls_loop.induct)
  case (1 SetMarker parent lastE)
  show ?case by (rule exI[of _ "[]"]) simp
next
  case (2 SetMarker parent lastE eid nm fl ch rest)
  define child0 where "child0 = Item nm (number (unat eid)) ''0.0'' NoIcon EventItemTag0 []"
  define res where "res = AddDrawcalls_loop SetMarker child0 0 ch"
  define child1 where "child1 = fst res"
  define l0 where "l0 = snd res"
  obtain rows_c where
    c: "child1 = appendChildren child0 rows_c"
    and sc: "map shape_item rows_c = map shape_draw ch"
    using "2.IH"(1)[OF child0_def] unfolding child1_def res_def by auto
  define child2 where
    "child2 = (if l0 > eid then setText_eid child1 (range_text eid l0) else child1)"
  define l1 where
    "l1 = (if l0 = 0
           then (if fl AND SetMarker \<noteq> 0 \<and> rest \<noteq> [] then eventID (hd rest) else eid)
           else l0)"
  define child3 where "child3 = setTag child2 (EventItemTag2 eid l1)"
  have res: "(child1, l0) = res" by (simp add: child1_def l0_def)
  obtain rows_r where
    r: "AddDrawcalls_loop SetMarker (addChild parent child3) l1 rest =
          (appendChildren (addChild parent child3) rows_r,
           if rest = [] then l1 else lastEID (tag (last rows_r)))"
    and sr: "map shape_item rows_r = map shape_draw rest"
    using "2.IH"(2)[OF child0_def res_def res child2_def l1_def child3_def] by blast
  have rows_r_Nil: "rows_r = [] \<longleftrightarrow> rest = []"
    using sr by (cases rows_r; cases rest) simp_all
  have tag3: "lastEID (tag child3) = l1"
    by (cases child2) (simp add: child3_def EventItemTag2_def)
  have step: "AddDrawcalls_loop SetMarker parent lastE (Draw eid nm fl ch # rest) =
      AddDrawcalls_loop SetMarker (addChild parent child3) l1 rest"
    unfolding child3_def child2_def l1_def child1_def l0_def res_def child0_def
    apply (subst AddDrawcalls_loop.simps(2))
    apply (unfold Let_def split_def)
    apply (rule refl)
    done
  have "shape_item child3 = shape_draw (Draw eid nm fl ch)"
    using sc by (simp add: child3_def child2_def c child0_def EventItemTag2_def)
  with sr have "map shape_item (child3 # rows_r) = map shape_draw (Draw eid nm fl ch # rest)"
    by simp
  moreover have "AddDrawcalls_loop SetMarker parent lastE (Draw eid nm fl ch # rest) =
      (appendChildren parent (child3 # rows_r), lastEID (tag (last (child3 # rows_r))))"
    unfolding step r using rows_r_Nil by (simp add: addChild_appendChildren tag3)
  ultimately show ?case by (intro exI[of _ "child3 # rows_r"]) simp
qed

text \<open>
  C4, as amended. For a draw-call list whose event IDs increase in traversal order,
  \<open>AddDrawcalls\<close> appends to the parent one row per draw with the tags and EID texts
  \<open>tagged_rows\<close> describes: \<open>EID \<le> lastEID\<close> on every row; a childless draw's \<open>lastEID\<close> is
  its own event ID, or the next sibling's for a \<open>SetMarker\<close> draw that has one; a draw
  with children takes the \<open>lastEID\<close> of its last child. The EID column shows the range
  "EID-lastEID" exactly on the rows of draws that have children; a childless draw shows
  its event ID alone, also when its \<open>lastEID\<close> is the next sibling's. The value returned
  is the \<open>lastEID\<close> of the last draw's row (0 for an empty list).
\<close>

theorem AddDrawcalls_tags:
  assumes "increasing draws"
  shows "\<exists>rows. AddDrawcalls SetMarker parent draws =
                  (appendChildren parent rows,
                   if draws = [] then 0 else lastEID (tag (last rows)))
               \<and> tagged_rows SetMarker rows draws"
  unfolding AddDrawcalls_def by (rule AddDrawcalls_loop_tagged[OF assms])

theorem AddDrawcalls_tags_witness:
  "increasing [Draw 1 ''marker'' 16 [], Draw 2 ''pass'' 32 [Draw 3 ''draw'' 2 []], Draw 4 ''end'' 2 []]
   \<and> (\<exists>rows. AddDrawcalls 16 (Item ''Frame #1'' [] [] NoIcon EventItemTag0 [])
                 [Draw 1 ''marker'' 16 [], Draw 2 ''pass'' 32 [Draw 3 ''draw'' 2 []], Draw 4 ''end'' 2 []]
               = (appendChildren (Item ''Frame #1'' [] [] NoIcon EventItemTag0 []) rows,
                  lastEID (tag (last rows)))
             \<and> tagged_rows 16 rows
                 [Draw 1 ''marker'' 16 [], Draw 2 ''pass'' 32 [Draw 3 ''draw'' 2 []], Draw 4 ''end'' 2 []])"
proof -
  have h: "increasing [Draw 1 ''marker'' 16 [], Draw 2 ''pass'' 32 [Draw 3 ''draw'' 2 []], Draw 4 ''end'' 2 []]"
    by (simp add: increasing_def traversal_def)
  show ?thesis
    using h AddDrawcalls_tags [OF h, of 16 "Item ''Frame #1'' [] [] NoIcon EventItemTag0 []"]
    by simp
qed

text \<open>
  The claim as first stated, that the EID column shows the range exactly when \<open>lastEID\<close>
  is larger than \<open>EID\<close>, fails on a \<open>SetMarker\<close> draw followed by a sibling: the loop
  writes the column before it settles \<open>lastEID\<close>. With the marker at event 1 and a draw
  at event 2, the marker's row has \<open>EID = 1\<close> and \<open>lastEID = 2\<close> and shows "1", not "1-2".
\<close>

theorem AddDrawcalls_range_counterexample:
  "increasing [Draw 1 ''marker'' 16 [], Draw 2 ''draw'' 2 []]
   \<and> map (\<lambda>row. (EID (tag row), lastEID (tag row), text_eid row))
        (childItems (fst (AddDrawcalls 16 (Item ''Frame #1'' [] [] NoIcon EventItemTag0 [])
           [Draw 1 ''marker'' 16 [], Draw 2 ''draw'' 2 []])))
      = [(1, 2, ''1''), (2, 2, ''2'')]
   \<and> range_text 1 2 = ''1-2''"
  by code_simp

text \<open>
  C5. \<open>AddDrawcalls\<close> appends to the parent exactly one row per draw call, in the order
  of the list, and does the same below each row for the draw's children: the new rows
  have the shape of the draw-call list, with each draw's name and event ID on its row.
  The draw-call list is an argument that is only read (a \<^verbatim>\<open>const\<close> reference in the
  source); the result holds the parent and the last event ID, no list of draws.
\<close>

theorem AddDrawcalls_rows:
  "\<exists>rows. fst (AddDrawcalls SetMarker parent draws) = appendChildren parent rows
          \<and> map shape_item rows = map shape_draw draws"
  using AddDrawcalls_loop_shape[of SetMarker parent 0 draws]
  unfolding AddDrawcalls_def by auto

theorem AddDrawcalls_rows_witness:
  "map shape_item
     (childItems (fst (AddDrawcalls 16 (Item ''Frame #1'' [] [] NoIcon EventItemTag0 [])
        [Draw 1 ''marker'' 16 [], Draw 2 ''pass'' 32 [Draw 3 ''draw'' 2 []], Draw 4 ''end'' 2 []])))
   = [Shape ''marker'' 1 [], Shape ''pass'' 2 [Shape ''draw'' 3 []], Shape ''end'' 4 []]"
  using AddDrawcalls_rows [of 16 "Item ''Frame #1'' [] [] NoIcon EventItemTag0 []"
      "[Draw 1 ''marker'' 16 [], Draw 2 ''pass'' 32 [Draw 3 ''draw'' 2 []], Draw 4 ''end'' 2 []]"]
  by auto

section \<open>Selecting the row of an event\<close>

lemma allItems_self: "n \<in> set (allItems n)"
  by (cases n) simp

lemma allItems_leaf: "childItems n = [] \<Longrightarrow> set (allItems n) = {n}"
  by (cases n) simp

lemma allItems_unfold: "set (allItems n) = insert n (below (childItems n))"
  by (cases n) (simp add: below_def)

lemma below_Nil [simp]: "below [] = {}"
  by (simp add: below_def)

lemma below_Cons: "below (n # ns) = set (allItems n) \<union> below ns"
  by (simp add: below_def)

lemma below_rev [simp]: "below (rev ns) = below ns"
  by (simp add: below_def)

lemma item_at_snoc:
  "item_at tree p = Some n \<Longrightarrow> j < length (childItems n) \<Longrightarrow>
     item_at tree (p @ [j]) = Some (childItems n ! j)"
proof (induction tree p rule: item_at.induct)
  case (1 xs)
  then show ?case by simp
next
  case (2 xs i)
  then show ?case by (auto split: if_splits)
next
  case (3 xs i v va)
  then show ?case by (auto split: if_splits)
qed

lemma search_inv_step:
  assumes inv: "search_inv tree ev V found"
    and at: "item_at tree q = Some n"
  shows "search_inv tree ev (insert n V)
           (if lastEID (tag n) \<ge> ev \<and>
               (found = None \<or> lastEID (tag n) \<le> (case found of None \<Rightarrow> 0 | Some (fp, f) \<Rightarrow> lastEID (tag f)))
            then Some (q, n) else found)"
  using assms
  by (cases found) (auto simp: search_inv_def nearest_def not_le split: prod.splits)

lemma search_inv_exact:
  assumes inv: "search_inv tree ev V found"
    and at: "item_at tree q = Some n" and eq: "lastEID (tag n) = ev"
  shows "(if lastEID (tag n) \<ge> ev \<and>
               (found = None \<or> lastEID (tag n) \<le> (case found of None \<Rightarrow> 0 | Some (fp, f) \<Rightarrow> lastEID (tag f)))
            then Some (q, n) else found) = Some (q, n)"
  using assms
  by (cases found) (auto simp: search_inv_def nearest_def split: prod.splits)

lemma search_inv_exact_mono:
  assumes "search_inv tree ev V (Some (p, f))" "lastEID (tag f) = ev" "V \<subseteq> W"
  shows "search_inv tree ev W (Some (p, f))"
  using assms by (auto simp: search_inv_def nearest_def)


lemma FindEventNode_loop_inv:
  assumes "search_inv tree ev V found"
    and "\<forall>j<length ns. item_at tree (pp @ [j]) = Some (rev ns ! j)"
  shows "search_inv tree ev (V \<union> below ns) (fst (FindEventNode_loop found pp ns ev))
       \<and> (snd (FindEventNode_loop found pp ns ev) \<longrightarrow>
            (\<exists>p f. fst (FindEventNode_loop found pp ns ev) = Some (p, f) \<and> lastEID (tag f) = ev))"
  using assms
proof (induction found pp ns ev arbitrary: V rule: FindEventNode_loop.induct)
  case (1 found parent ev)
  then show ?case by simp
next
  case (2 found parent n rest ev)
  define i where "i = length rest"
  define nEID where "nEID = lastEID (tag n)"
  define fEID where "fEID = (case found of None \<Rightarrow> 0 | Some (fp, f) \<Rightarrow> lastEID (tag f))"
  define found1 where
    "found1 = (if ev \<le> nEID \<and> (found = None \<or> nEID \<le> fEID) then Some (parent @ [i], n) else found)"
  note inv = "2.prems"(1) and ptrs = "2.prems"(2)
  have at_n: "item_at tree (parent @ [i]) = Some n"
    using ptrs[rule_format, of "length rest"] by (simp add: i_def nth_append)
  have ptrs_rest: "\<forall>j<length rest. item_at tree (parent @ [j]) = Some (rev rest ! j)"
    using ptrs by (auto simp: nth_append)
  have inv1: "search_inv tree ev (insert n V) found1"
    unfolding found1_def nEID_def fEID_def by (rule search_inv_step[OF inv at_n])
  have unfold: "FindEventNode_loop found parent (n # rest) ev =
     (if nEID = ev \<and> childItems n = [] then (found1, True)
      else if childItems n \<noteq> []
      then (let (found2, exact) = FindEventNode_loop found1 (parent @ [i]) (rev (childItems n)) ev
            in if exact then (found2, True) else FindEventNode_loop found2 parent rest ev)
      else FindEventNode_loop found1 parent rest ev)"
    unfolding found1_def fEID_def nEID_def i_def
    apply (subst FindEventNode_loop.simps(2))
    apply (unfold Let_def)
    apply (rule refl)
    done
  show ?case
  proof (cases "nEID = ev \<and> childItems n = []")
    case True
    then have f1: "found1 = Some (parent @ [i], n)"
      unfolding found1_def nEID_def fEID_def
      using search_inv_exact[OF inv at_n] by simp
    have "search_inv tree ev (V \<union> below (n # rest)) (Some (parent @ [i], n))"
      using inv1 True unfolding f1
      by (rule_tac search_inv_exact_mono[where V="insert n V"])
         (auto simp: nEID_def below_Cons allItems_self)
    then show ?thesis unfolding unfold using True by (simp add: f1 nEID_def)
  next
    case notexact: False
    show ?thesis
    proof (cases "childItems n \<noteq> []")
      case True
      define res where "res = FindEventNode_loop found1 (parent @ [i]) (rev (childItems n)) ev"
      define found2 where "found2 = fst res"
      define exact where "exact = snd res"
      have ptrs_c: "\<forall>j<length (rev (childItems n)).
          item_at tree ((parent @ [i]) @ [j]) = Some (rev (rev (childItems n)) ! j)"
        using item_at_snoc[OF at_n] by simp
      have ih1: "search_inv tree ev (insert n V \<union> below (rev (childItems n))) found2
          \<and> (exact \<longrightarrow> (\<exists>p f. found2 = Some (p, f) \<and> lastEID (tag f) = ev))"
        using "2.IH"(1)[OF i_def nEID_def fEID_def found1_def notexact True inv1 ptrs_c]
        unfolding found2_def exact_def res_def .
      have V2: "insert n V \<union> below (rev (childItems n)) = V \<union> set (allItems n)"
        by (auto simp: allItems_unfold)
      show ?thesis
      proof (cases exact)
        case True
        with ih1 obtain p f where f2: "found2 = Some (p, f)" and ev: "lastEID (tag f) = ev"
          by blast
        have "search_inv tree ev (V \<union> below (n # rest)) (Some (p, f))"
          using ih1 ev unfolding f2 V2
          by (rule_tac search_inv_exact_mono[where V="V \<union> set (allItems n)"])
             (auto simp: below_Cons)
        then show ?thesis
          unfolding unfold
          using True notexact \<open>childItems n \<noteq> []\<close> f2 ev
          by (simp add: split_def Let_def res_def[symmetric] found2_def[symmetric] exact_def[symmetric])
      next
        case False
        have res: "(found2, exact) = res" by (simp add: found2_def exact_def)
        have inv2: "search_inv tree ev (V \<union> set (allItems n)) found2"
          using ih1 unfolding V2 by simp
        have ih2: "search_inv tree ev (V \<union> set (allItems n) \<union> below rest)
              (fst (FindEventNode_loop found2 parent rest ev))
            \<and> (snd (FindEventNode_loop found2 parent rest ev) \<longrightarrow>
                 (\<exists>p f. fst (FindEventNode_loop found2 parent rest ev) = Some (p, f)
                    \<and> lastEID (tag f) = ev))"
          using "2.IH"(2)[OF i_def nEID_def fEID_def found1_def notexact True
              res_def res False inv2 ptrs_rest] .
        have "FindEventNode_loop found parent (n # rest) ev = FindEventNode_loop found2 parent rest ev"
          unfolding unfold
          using False notexact True
          by (simp add: split_def Let_def res_def[symmetric] found2_def[symmetric] exact_def[symmetric])
        then show ?thesis using ih2 by (simp add: below_Cons Un_assoc)
      qed
    next
      case False
      then have leaf: "childItems n = []" by simp
      have inv1': "search_inv tree ev (V \<union> set (allItems n)) found1"
        using inv1 by (simp add: allItems_leaf[OF leaf])
      have ih3: "search_inv tree ev (V \<union> set (allItems n) \<union> below rest)
              (fst (FindEventNode_loop found1 parent rest ev))
            \<and> (snd (FindEventNode_loop found1 parent rest ev) \<longrightarrow>
                 (\<exists>p f. fst (FindEventNode_loop found1 parent rest ev) = Some (p, f)
                    \<and> lastEID (tag f) = ev))"
        using "2.IH"(3)[OF i_def nEID_def fEID_def found1_def notexact False
            inv1' ptrs_rest] .
      have "FindEventNode_loop found parent (n # rest) ev = FindEventNode_loop found1 parent rest ev"
        unfolding unfold using notexact leaf by simp
      then show ?thesis using ih3 by (simp add: below_Cons Un_assoc)
    qed
  qed
qed


lemma demo_browser_eq:
  "demo_browser =
     \<lparr>LogLoaded = True, CurEvent = 6, frameNumber = 7, events = [demo_frame], currentItem = None,
      selectedItem = None, expanded = {[0]}, scrolledTo = None, toolbarEnabled = True,
      findEvent_text = [], findEvent_styleSheet = [], m_Bookmarks = [], m_BookmarkButtons = [],
      bookmarkStrip_visible = False\<rparr>"
  by code_simp

lemma FindEventNode_frame:
  assumes "tree = frame # others"
  shows "search_inv tree ev (below (childItems frame)) (fst (FindEventNode None ([0], frame) ev))"
proof -
  have inv0: "search_inv tree ev {} None"
    by (simp add: search_inv_def)
  have ptrs: "\<forall>j<length (rev (childItems frame)).
      item_at tree ([0] @ [j]) = Some (rev (rev (childItems frame)) ! j)"
    by (simp add: assms)
  from FindEventNode_loop_inv[OF inv0 ptrs] show ?thesis
    by (simp add: FindEventNode_def)
qed

lemma ExpandNode_loop_mono: "ex \<subseteq> ExpandNode_loop node ex"
  by (induction node ex rule: ExpandNode_loop.induct) auto

lemma ExpandNode_loop_self: "p \<in> ExpandNode_loop (Some p) ex"
  using ExpandNode_loop_mono[of "insert p ex" "parent_ptr p"] by simp

text \<open>
  The top-level item is the frame's row; the searches start below it. In every tree
  \<open>OnLogfileLoaded\<close> builds, the frame row's own \<open>lastEID\<close> is also the \<open>lastEID\<close> of one
  of its children, so the rows below it carry every \<open>lastEID\<close> of the tree.
\<close>

lemma tag_setTag [simp]: "tag (setTag it t) = t"
  by (cases it) simp

lemma childItems_setTag [simp]: "childItems (setTag it t) = childItems it"
  by (cases it) simp

lemma OnLogfileLoaded_frame:
  "\<exists>frame. events (OnLogfileLoaded sm s draws) = events s @ [frame]
           \<and> (\<exists>c\<in>set (childItems frame). lastEID (tag c) = lastEID (tag frame))"
proof -
  define framestart where
    "framestart = setTag (Item ''Frame Start'' ''0'' [] NoIcon EventItemTag0 []) EventItemTag0"
  define frame1 where
    "frame1 = addChild (Item (''Frame #'' @ number (unat (frameNumber s))) [] [] NoIcon EventItemTag0 [])
                framestart"
  obtain rows where r: "AddDrawcalls sm frame1 draws =
      (appendChildren frame1 rows, if draws = [] then 0 else lastEID (tag (last rows)))"
    and sh: "map shape_item rows = map shape_draw draws"
    using AddDrawcalls_loop_shape[of sm frame1 0 draws] unfolding AddDrawcalls_def by blast
  define l where "l = (if draws = [] then 0 else lastEID (tag (last rows)))"
  define frame3 where "frame3 = setTag (appendChildren frame1 rows) (EventItemTag2 0 l)"
  have ne: "rows \<noteq> []" if "draws \<noteq> []"
    using sh that by (cases rows; cases draws) simp_all
  have ev: "events (OnLogfileLoaded sm s draws) = events s @ [frame3]"
    unfolding OnLogfileLoaded_def Let_def
    apply (fold framestart_def)
    apply (fold frame1_def)
    apply (unfold r prod.case)
    apply (fold l_def)
    apply (fold frame3_def)
    apply (simp add: clearBookmarks_def)
    done
  have cs: "childItems frame3 = framestart # rows"
    by (simp add: frame3_def frame1_def)
  have tg: "lastEID (tag frame3) = l"
    by (simp add: frame3_def EventItemTag2_def)
  have "\<exists>c\<in>set (childItems frame3). lastEID (tag c) = lastEID (tag frame3)"
  proof (cases "draws = []")
    case True
    then show ?thesis
      unfolding cs tg by (simp add: l_def framestart_def EventItemTag0_def)
  next
    case False
    then show ?thesis
      unfolding cs tg using ne by (auto simp: l_def)
  qed
  with ev show ?thesis by blast
qed

text \<open>
  C1. With a log loaded, \<open>SelectEvent ev\<close> looks at the rows under the top-level item
  (the frame's row). If one of them has \<open>lastEID \<ge> ev\<close>, it returns true and makes
  current and selected (and expands) a row whose \<open>lastEID\<close> is the smallest one that is at
  least \<open>ev\<close>: the event itself or the nearest following one. If every one of them has
  \<open>lastEID < ev\<close>, it returns false. The search needs no assumption on the order of the
  event IDs.
\<close>

theorem SelectEvent_nearest:
  assumes "LogLoaded s" and "events s = frame # others"
  shows "((\<exists>n\<in>below (childItems frame). ev \<le> lastEID (tag n)) \<longrightarrow>
            (\<exists>p n s'. SelectEvent s ev = Inr (True, s')
               \<and> currentItem s' = Some p \<and> selectedItem s' = Some p \<and> p \<in> expanded s'
               \<and> events s' = events s \<and> item_at (events s) p = Some n
               \<and> nearest ev (below (childItems frame)) n))
       \<and> ((\<forall>n\<in>below (childItems frame). lastEID (tag n) < ev) \<longrightarrow>
            SelectEvent s ev = Inr (False, s))"
proof -
  define found where "found = fst (FindEventNode None ([0], frame) ev)"
  have inv: "search_inv (events s) ev (below (childItems frame)) found"
    unfolding found_def by (rule FindEventNode_frame[OF assms(2)])
  have top: "topLevelItem s 0 = Some ([0], frame)"
    by (simp add: topLevelItem_def assms(2))
  show ?thesis
  proof (cases found)
    case None
    with inv have all: "\<forall>n\<in>below (childItems frame). lastEID (tag n) < ev"
      by (simp add: search_inv_def)
    have "SelectEvent s ev = Inr (False, s)"
      using None assms(1) by (simp add: SelectEvent_def top split_def found_def[symmetric])
    with all show ?thesis by (auto simp: not_le[symmetric])
  next
    case (Some r)
    obtain p n where r: "r = (p, n)" by (cases r)
    from inv have at: "item_at (events s) p = Some n"
      and near: "nearest ev (below (childItems frame)) n"
      by (simp_all add: search_inv_def Some r)
    define s' where "s' = ExpandNode (s\<lparr>currentItem := Some p, selectedItem := Some p\<rparr>) (Some p)"
    have sel: "SelectEvent s ev = Inr (True, s')"
      using Some r assms(1)
      by (simp add: SelectEvent_def top split_def found_def[symmetric] s'_def)
    have "currentItem s' = Some p" "selectedItem s' = Some p" "events s' = events s"
      "p \<in> expanded s'"
      by (simp_all add: s'_def ExpandNode_def ExpandNode_loop_self del: ExpandNode_loop.simps)
    with sel at near have "\<exists>p n s'. SelectEvent s ev = Inr (True, s')
               \<and> currentItem s' = Some p \<and> selectedItem s' = Some p \<and> p \<in> expanded s'
               \<and> events s' = events s \<and> item_at (events s) p = Some n
               \<and> nearest ev (below (childItems frame)) n"
      by blast
    moreover from near have "\<not> (\<forall>n\<in>below (childItems frame). lastEID (tag n) < ev)"
      by (auto simp: nearest_def not_less)
    ultimately show ?thesis by blast
  qed
qed

theorem SelectEvent_nearest_witness:
  "LogLoaded demo_browser \<and> events demo_browser = [demo_frame]
   \<and> (\<exists>n\<in>below (childItems demo_frame). 4 \<le> lastEID (tag n))
   \<and> (\<exists>p n s'. SelectEvent demo_browser 4 = Inr (True, s')
          \<and> currentItem s' = Some p \<and> selectedItem s' = Some p \<and> p \<in> expanded s'
          \<and> events s' = events demo_browser \<and> item_at (events demo_browser) p = Some n
          \<and> nearest 4 (below (childItems demo_frame)) n)"
proof -
  have h1: "LogLoaded demo_browser" and h2: "events demo_browser = [demo_frame]"
    by (simp_all add: demo_browser_eq)
  have h3: "\<exists>n\<in>below (childItems demo_frame). 4 \<le> lastEID (tag n)"
    by (simp add: demo_frame_def below_def EventItemTag2_def)
  from SelectEvent_nearest [OF h1 h2, of 4] h3 h1 h2 show ?thesis by blast
qed

text \<open>
  C9. When \<open>SelectEvent\<close> returns false the browser is left exactly as it was: current and
  selected item, expanded rows, and the tree with all its tags. It returns false only
  when no log is loaded or when every row under the top-level item has \<open>lastEID < ev\<close>.
\<close>

theorem SelectEvent_false_unchanged:
  assumes "SelectEvent s ev = Inr (False, s')"
  shows "s' = s
       \<and> (\<not> LogLoaded s
          \<or> (\<exists>frame others. events s = frame # others
                \<and> (\<forall>n\<in>below (childItems frame). lastEID (tag n) < ev)))"
proof (cases "LogLoaded s")
  case False
  with assms show ?thesis by (simp add: SelectEvent_def)
next
  case True
  show ?thesis
  proof (cases "events s")
    case Nil
    with assms True show ?thesis by (simp add: SelectEvent_def topLevelItem_def)
  next
    case (Cons frame others)
    define found where "found = fst (FindEventNode None ([0], frame) ev)"
    have inv: "search_inv (events s) ev (below (childItems frame)) found"
      unfolding found_def by (rule FindEventNode_frame[OF Cons])
    have top: "topLevelItem s 0 = Some ([0], frame)"
      by (simp add: topLevelItem_def Cons)
    from assms True have "found = None \<and> s' = s"
      by (auto simp: SelectEvent_def top split_def found_def[symmetric] split: option.splits)
    with inv Cons show ?thesis by (auto simp: search_inv_def)
  qed
qed

theorem SelectEvent_false_unchanged_witness:
  "SelectEvent demo_browser 7 = Inr (False, demo_browser)
   \<and> LogLoaded demo_browser
   \<and> (\<exists>frame others. events demo_browser = frame # others
         \<and> (\<forall>n\<in>below (childItems frame). lastEID (tag n) < 7))"
proof -
  have h: "SelectEvent demo_browser 7 = Inr (False, demo_browser)"
    by code_simp
  have l: "LogLoaded demo_browser"
    by (simp add: demo_browser_eq)
  from SelectEvent_false_unchanged [OF h] h l show ?thesis by blast
qed

section \<open>Find\<close>

lemma visit_True: "visit True n = allItems n"
  by (induction n rule: allItems.induct) (simp add: visit_order_def cong: map_cong)

lemma visits_True: "visits True ns = document_order ns"
  by (simp add: visits_def document_order_def visit_True cong: map_cong)

lemma visit_unfold:
  "visit forward n = n # visits forward (visit_order forward (childItems n))"
  by (cases n) (simp add: visits_def visit_order_def rev_map)

lemma visits_Cons: "visits forward (n # rest) = visit forward n @ visits forward rest"
  by (simp add: visits_def)

lemma set_visit: "set (visit forward n) = set (allItems n)"
  by (induction n rule: allItems.induct) (auto simp: visit_order_def)

lemma set_visits: "set (visits forward vs) = below vs"
  by (simp add: visits_def below_def set_visit)

lemma below_visit_order [simp]: "below (visit_order forward cs) = below cs"
  by (simp add: visit_order_def)


lemma find_append_hit:
  "List.find P (xs @ ys) = (case List.find P xs of None \<Rightarrow> List.find P ys | Some x \<Rightarrow> Some x)"
  by (induction xs) auto

lemma find_Some_set: "List.find P xs = Some x \<Longrightarrow> x \<in> set xs \<and> P x"
  by (induction xs) (auto split: if_splits)

lemma FindEvent_loop_first:
  assumes "\<forall>n\<in>set vs. \<forall>m\<in>below (childItems n). hit flt after forward m \<longrightarrow> 0 < sint (lastEID (tag m))"
  shows "FindEvent_loop vs flt after forward = raw_hit flt after forward (visits forward vs)"
  using assms
proof (induction vs flt after forward rule: FindEvent_loop.induct)
  case (1 flt after forward)
  show ?case by (simp add: raw_hit_def visits_def)
next
  case (2 n rest flt after forward)
  define cs where "cs = visit_order forward (childItems n)"
  have pos_n: "\<forall>m\<in>below (childItems n). hit flt after forward m \<longrightarrow> 0 < sint (lastEID (tag m))"
    and pos_rest: "\<forall>n\<in>set rest. \<forall>m\<in>below (childItems n).
        hit flt after forward m \<longrightarrow> 0 < sint (lastEID (tag m))"
    using "2.prems" by auto
  have vis: "visits forward (n # rest) = n # visits forward cs @ visits forward rest"
    by (simp add: visits_Cons cs_def visit_unfold[of forward n])
  have unfold: "FindEvent_loop (n # rest) flt after forward =
      (if hit flt after forward n then sint (lastEID (tag n))
       else if childItems n \<noteq> []
       then (let found = FindEvent_loop cs flt after forward
             in if found > 0 then found else FindEvent_loop rest flt after forward)
       else FindEvent_loop rest flt after forward)"
    unfolding cs_def hit_def
    apply (subst FindEvent_loop.simps(2))
    apply (unfold Let_def)
    apply (rule refl)
    done
  show ?case
  proof (cases "hit flt after forward n")
    case True
    then show ?thesis unfolding unfold vis by (simp add: raw_hit_def)
  next
    case nohit: False
    then have nh: "\<not> (let eid = lastEID (tag n);
          matchesAfter = forward \<and> after < eid \<or> \<not> forward \<and> eid < after
        in matchesAfter \<and> contains (text_name n) flt)"
      by (simp add: hit_def Let_def)
    show ?thesis
    proof (cases "childItems n \<noteq> []")
      case True
      have sub: "\<forall>c\<in>set cs. \<forall>m\<in>below (childItems c).
          hit flt after forward m \<longrightarrow> 0 < sint (lastEID (tag m))"
      proof (intro ballI impI)
        fix c m assume c: "c \<in> set cs" and m: "m \<in> below (childItems c)"
          and h: "hit flt after forward m"
        from c have "c \<in> set (childItems n)" by (auto simp: cs_def visit_order_def split: if_splits)
        then have "set (allItems c) \<subseteq> below (childItems n)" by (auto simp: below_def)
        with m have "m \<in> below (childItems n)" by (auto simp: allItems_unfold)
        with pos_n h show "0 < sint (lastEID (tag m))" by blast
      qed
      have ih1: "FindEvent_loop cs flt after forward = raw_hit flt after forward (visits forward cs)"
        using "2.IH"(1)[OF refl refl _ True sub[unfolded cs_def]] nh
        unfolding cs_def Let_def by blast
      show ?thesis
      proof (cases "List.find (hit flt after forward) (visits forward cs)")
        case None
        then have neg: "\<not> 0 < FindEvent_loop cs flt after forward"
          by (simp add: ih1 raw_hit_def)
        have ih2: "FindEvent_loop rest flt after forward = raw_hit flt after forward (visits forward rest)"
          using "2.IH"(2)[OF refl refl _ True refl _ pos_rest] nh neg
          unfolding cs_def Let_def by blast
        show ?thesis
          unfolding unfold vis using nohit True neg None
          by (simp add: ih2 raw_hit_def find_append_hit Let_def)
      next
        case (Some m)
        from find_Some_set[OF Some] have "m \<in> below (childItems n)" "hit flt after forward m"
          by (simp_all add: set_visits cs_def)
        with pos_n have "0 < sint (lastEID (tag m))" by blast
        then show ?thesis
          unfolding unfold vis using nohit True Some
          by (simp add: ih1 raw_hit_def find_append_hit Let_def)
      qed
    next
      case False
      then have leaf: "childItems n = []" by simp
      have ih3: "FindEvent_loop rest flt after forward = raw_hit flt after forward (visits forward rest)"
        using "2.IH"(3)[OF refl refl _ False pos_rest] nh
        unfolding Let_def by blast
      show ?thesis
        unfolding unfold vis using nohit leaf
        by (simp add: ih3 raw_hit_def cs_def visit_order_def visits_def)
    qed
  qed
qed


lemma sint_small: "w < (0x80000000 :: 32 word) \<Longrightarrow> sint w = uint w"
proof -
  assume "w < 0x80000000"
  then have "uint w < 2 ^ 31" by (simp add: word_less_def)
  moreover have "- (2 ^ 31) \<le> uint w"
    by (rule order_trans[OF _ uint_nonnegative]) simp
  ultimately have "signed_take_bit 31 (uint w) = uint w"
    by (intro signed_take_bit_int_eq_self) simp_all
  then show ?thesis by (simp add: sint_uint)
qed

lemma uint_pos: "(w :: 32 word) \<noteq> 0 \<Longrightarrow> 0 < uint w"
  using uint_nonnegative[of w] uint_0_iff[of w] by linarith

text \<open>
  C2, as amended. For a tree whose \<open>lastEID\<close>s are below \<open>2^31\<close> (and, for a backward
  search, not 0 on rows two or more levels below the top-level item), \<open>FindEvent\<close>
  returns the \<open>lastEID\<close> of the first row, in the order the search visits the rows, whose
  name contains the filter without regard to case and whose \<open>lastEID\<close> is larger than
  \<open>after\<close> (forward) or smaller than \<open>after\<close> (backward), and -1 when there is no such
  row. Forward, the rows are visited in document order. Backward, siblings are visited
  from the last to the first, but every row is still visited before its own children, so
  the order is not the reverse of document order.
\<close>

theorem FindEvent_first_visited:
  assumes "LogLoaded s" and "events s = frame # others"
    and "\<forall>n\<in>below (childItems frame). lastEID (tag n) < 0x80000000"
    and "\<not> forward \<longrightarrow>
           (\<forall>c\<in>set (childItems frame). \<forall>n\<in>below (childItems c). lastEID (tag n) \<noteq> 0)"
  shows "FindEvent s flt after forward =
           first_hit flt after forward (visits forward (visit_order forward (childItems frame)))
       \<and> visits True (visit_order True (childItems frame)) = document_order (childItems frame)"
proof -
  define vs where "vs = visit_order forward (childItems frame)"
  have pos: "\<forall>n\<in>set vs. \<forall>m\<in>below (childItems n).
      hit flt after forward m \<longrightarrow> 0 < sint (lastEID (tag m))"
  proof (intro ballI impI)
    fix c m assume c: "c \<in> set vs" and m: "m \<in> below (childItems c)"
      and h: "hit flt after forward m"
    from c have c': "c \<in> set (childItems frame)"
      by (auto simp: vs_def visit_order_def split: if_splits)
    then have "set (allItems c) \<subseteq> below (childItems frame)" by (auto simp: below_def)
    with m have "m \<in> below (childItems frame)" by (auto simp: allItems_unfold)
    with assms(3) have small: "lastEID (tag m) < 0x80000000" by blast
    have "lastEID (tag m) \<noteq> 0"
    proof (cases forward)
      case True
      with h have "after < lastEID (tag m)" by (simp add: hit_def)
      then show ?thesis by (auto simp: word_gt_0 dest: le_less_trans[OF word_zero_le])
    next
      case False
      with assms(4) c' m show ?thesis by blast
    qed
    then show "0 < sint (lastEID (tag m))"
      using sint_small[OF small] uint_pos by simp
  qed
  have "FindEvent s flt after forward = FindEvent_loop vs flt after forward"
    using assms(1,2)
    by (simp add: FindEvent_def FindEvent_node_def topLevelItem_def vs_def)
  also have "\<dots> = raw_hit flt after forward (visits forward vs)"
    by (rule FindEvent_loop_first[OF pos])
  also have "\<dots> = first_hit flt after forward (visits forward vs)"
  proof (cases "List.find (hit flt after forward) (visits forward vs)")
    case None
    then show ?thesis by (simp add: raw_hit_def first_hit_def)
  next
    case (Some m)
    from find_Some_set[OF Some] have "m \<in> below (childItems frame)"
      by (simp add: set_visits vs_def)
    with assms(3) have "lastEID (tag m) < 0x80000000" by blast
    from sint_small[OF this] Some show ?thesis by (simp add: raw_hit_def first_hit_def)
  qed
  finally show ?thesis
    by (simp add: vs_def visits_True) (simp add: visit_order_def)
qed

theorem FindEvent_first_visited_witness:
  "LogLoaded demo_browser \<and> events demo_browser = [demo_frame]
   \<and> FindEvent demo_browser ''shadow'' (NOT 0) False =
       first_hit ''shadow'' (NOT 0) False (visits False (visit_order False (childItems demo_frame)))
   \<and> FindEvent demo_browser ''shadow'' (NOT 0) False = 5"
proof -
  have h1: "LogLoaded demo_browser" and h2: "events demo_browser = [demo_frame]"
    by (simp_all add: demo_browser_eq)
  have h3: "\<forall>n\<in>below (childItems demo_frame). lastEID (tag n) < 0x80000000"
    by (simp add: demo_frame_def below_def EventItemTag2_def EventItemTag0_def)
  have h4: "\<not> False \<longrightarrow>
      (\<forall>c\<in>set (childItems demo_frame). \<forall>n\<in>below (childItems c). lastEID (tag n) \<noteq> 0)"
    by (simp add: demo_frame_def below_def EventItemTag2_def EventItemTag0_def)
  have v: "first_hit ''shadow'' (NOT 0) False (visits False (visit_order False (childItems demo_frame))) = 5"
    by code_simp
  from FindEvent_first_visited [OF h1 h2 h3 h4, of "''shadow''" "NOT 0"] h1 h2 v
  show ?thesis by simp
qed

text \<open>
  The claim as first stated fails for the backward search. In the example capture, with
  the filter "shadow" and \<open>after = ~0U\<close>, the rows in reverse document order are
  "present", "clear", "shadow draw" (a hit, \<open>lastEID\<close> 3), but the search visits "shadow
  pass" (a hit, \<open>lastEID\<close> 5) before its children and returns 5.
\<close>

theorem FindEvent_backward_counterexample:
  "FindEvent demo_browser ''shadow'' (NOT 0) False = 5
   \<and> claimed_FindEvent demo_frame ''shadow'' (NOT 0) False = 3"
  by code_simp

text \<open>
  C3. \<open>Find\<close> repeats a search that found nothing from event 0 (forward) or from
  \<^verbatim>\<open>~0U\<close> (backward), and should turn the find box red, leaving the selection alone,
  exactly when no row of the tree matches the filter. The forward search from 0 asks for
  \<open>lastEID > 0\<close>, so it can never reach the "Frame Start" row, whose \<open>lastEID\<close> is 0.
  In the example capture with the filter "Frame Start": searching forward turns the find
  box red and changes nothing else, although one row matches (\<open>SetFindIcons\<close> counts 1);
  searching backward selects that row.
\<close>

theorem Find_forward_misses_Frame_Start:
  "Find (demo_browser\<lparr>findEvent_text := ''Frame Start''\<rparr>) True =
     Inr (demo_browser\<lparr>findEvent_text := ''Frame Start'', findEvent_styleSheet := red_styleSheet\<rparr>)
   \<and> SetFindIcons_count (childItems demo_frame) ''Frame Start'' = 1
   \<and> Find (demo_browser\<lparr>findEvent_text := ''Frame Start''\<rparr>) False =
     Inr (demo_browser\<lparr>findEvent_text := ''Frame Start'', findEvent_styleSheet := [],
            currentItem := Some [0, 0], selectedItem := Some [0, 0],
            expanded := {[0], [0, 0]}, scrolledTo := Some [0, 0]\<rparr>)"
  by code_simp

section \<open>Bookmarks\<close>

lemma bookmarks_aligned_map:
  "bookmarks_aligned s \<longleftrightarrow> map eid_property (m_BookmarkButtons s) = m_Bookmarks s"
  unfolding bookmarks_aligned_def
  by (auto simp: list_eq_iff_nth_eq)

lemma indexOf_None_iff: "indexOf xs x = None \<longleftrightarrow> x \<notin> set xs"
  by (induction xs) auto

lemma indexOf_Some:
  "indexOf xs x = Some i \<Longrightarrow> i < length xs \<and> xs ! i = x \<and> removeAt i xs = remove1 x xs"
proof (induction xs arbitrary: i)
  case Nil
  then show ?case by simp
next
  case (Cons y ys)
  show ?case
  proof (cases "y = x")
    case True
    with Cons.prems show ?thesis by (simp add: removeAt_def)
  next
    case False
    with Cons.prems obtain j where j: "indexOf ys x = Some j" and i: "i = Suc j"
      by auto
    from Cons.IH[OF j] False show ?thesis by (simp add: i removeAt_def)
  qed
qed

lemma map_removeAt: "map f (removeAt i xs) = removeAt i (map f xs)"
  by (simp add: removeAt_def take_map drop_map)

lemma length_update_at [simp]: "length (update_at p f xs) = length xs"
  by (induction p f xs rule: update_at.induct) auto

lemma update_at_Nil_iff [simp]: "update_at p f xs = [] \<longleftrightarrow> xs = []"
  using length_update_at[of p f xs] by (simp only: length_0_conv[symmetric])

lemma highlight_eid [simp]:
  "eid_property (if c then b\<lparr>checked := True\<rparr> else b\<lparr>checked := False\<rparr>) = eid_property b"
  by simp

lemma toggleBookmark_result:
  assumes ev: "events s \<noteq> []" and al: "bookmarks_aligned s"
  shows "\<exists>s'. toggleBookmark s ev = Inr s'
           \<and> m_Bookmarks s' =
               (if ev \<in> set (m_Bookmarks s) then remove1 ev (m_Bookmarks s)
                else m_Bookmarks s @ [ev])
           \<and> bookmarks_aligned s'
           \<and> bookmarkStrip_visible s' = (m_BookmarkButtons s' \<noteq> [])
           \<and> events s' \<noteq> []"
proof -
  obtain frame others where fr: "events s = frame # others"
    using ev by (cases "events s") auto
  have top: "topLevelItem s 0 = Some ([0], frame)"
    by (simp add: topLevelItem_def fr)
  define found where "found = fst (FindEventNode None ([0], frame) ev)"
  show ?thesis
  proof (cases "indexOf (m_Bookmarks s) ev")
    case None
    then have notin: "ev \<notin> set (m_Bookmarks s)" by (simp add: indexOf_None_iff)
    show ?thesis
      using al notin ev
      by (cases found)
         (auto simp: toggleBookmark_def top None split_def Let_def found_def[symmetric]
            highlightBookmarks_def bookmarks_aligned_map comp_def)
  next
    case (Some i)
    from indexOf_Some[OF Some] have i: "i < length (m_Bookmarks s)"
      and rm: "removeAt i (m_Bookmarks s) = remove1 ev (m_Bookmarks s)"
      and mem: "ev \<in> set (m_Bookmarks s)"
      by (auto simp: in_set_conv_nth)
    from al i have ib: "i < length (m_BookmarkButtons s)"
      by (metis bookmarks_aligned_def)
    have al': "map eid_property (removeAt i (m_BookmarkButtons s)) = removeAt i (m_Bookmarks s)"
      using al by (simp add: map_removeAt bookmarks_aligned_map)
    show ?thesis
      using al' mem ev ib rm
      by (cases found)
         (auto simp: toggleBookmark_def top Some split_def Let_def found_def[symmetric]
            bookmarks_aligned_map)
  qed
qed


text \<open>
  C6. In a browser with a tree, whose bookmark lists are in step and hold no event ID
  twice (true after \<open>clearBookmarks\<close> and kept by \<open>toggleBookmark\<close>, the only two
  functions that write the lists), \<open>toggleBookmark ev\<close> removes \<open>ev\<close> from the bookmark
  list when it is there and appends it when it is not; toggling the same event ID a
  second time gives back the set of bookmarks there was at the start.
\<close>

theorem toggleBookmark_twice:
  assumes "events s \<noteq> []" and "bookmarks_aligned s" and "distinct (m_Bookmarks s)"
  shows "\<exists>s1 s2. toggleBookmark s ev = Inr s1 \<and> toggleBookmark s1 ev = Inr s2
           \<and> m_Bookmarks s1 =
               (if ev \<in> set (m_Bookmarks s) then remove1 ev (m_Bookmarks s)
                else m_Bookmarks s @ [ev])
           \<and> (ev \<in> set (m_Bookmarks s1) \<longleftrightarrow> ev \<notin> set (m_Bookmarks s))
           \<and> set (m_Bookmarks s2) = set (m_Bookmarks s)
           \<and> distinct (m_Bookmarks s1) \<and> distinct (m_Bookmarks s2)"
proof -
  from toggleBookmark_result[OF assms(1,2), of ev] obtain s1 where
    t1: "toggleBookmark s ev = Inr s1"
    and b1: "m_Bookmarks s1 =
               (if ev \<in> set (m_Bookmarks s) then remove1 ev (m_Bookmarks s)
                else m_Bookmarks s @ [ev])"
    and al1: "bookmarks_aligned s1" and ev1: "events s1 \<noteq> []"
    by blast
  from toggleBookmark_result[OF ev1 al1, of ev] obtain s2 where
    t2: "toggleBookmark s1 ev = Inr s2"
    and b2: "m_Bookmarks s2 =
               (if ev \<in> set (m_Bookmarks s1) then remove1 ev (m_Bookmarks s1)
                else m_Bookmarks s1 @ [ev])"
    by blast
  have mem1: "ev \<in> set (m_Bookmarks s1) \<longleftrightarrow> ev \<notin> set (m_Bookmarks s)"
    using assms(3) by (simp add: b1)
  have d1: "distinct (m_Bookmarks s1)"
    using assms(3) by (simp add: b1)
  have set2: "set (m_Bookmarks s2) = set (m_Bookmarks s)"
  proof (cases "ev \<in> set (m_Bookmarks s)")
    case True
    then show ?thesis using assms(3) by (auto simp: b1 b2)
  next
    case False
    then show ?thesis by (simp add: b1 b2 remove1_append)
  qed
  have d2: "distinct (m_Bookmarks s2)"
    using d1 mem1 by (auto simp: b2)
  from t1 t2 b1 mem1 set2 d1 d2 show ?thesis by blast
qed

theorem toggleBookmark_twice_witness:
  "events demo_browser \<noteq> [] \<and> bookmarks_aligned demo_browser
   \<and> distinct (m_Bookmarks demo_browser)
   \<and> (\<exists>s1 s2. toggleBookmark demo_browser 5 = Inr s1 \<and> toggleBookmark s1 5 = Inr s2
          \<and> m_Bookmarks s1 = [5] \<and> 5 \<in> set (m_Bookmarks s1)
          \<and> set (m_Bookmarks s2) = {})"
proof -
  have h1: "events demo_browser \<noteq> []" and h2: "bookmarks_aligned demo_browser"
    and h3: "distinct (m_Bookmarks demo_browser)"
    by (simp_all add: demo_browser_eq bookmarks_aligned_def)
  have h4: "m_Bookmarks demo_browser = []"
    by (simp add: demo_browser_eq)
  from toggleBookmark_twice [OF h1 h2 h3, of 5] h1 h2 h3 show ?thesis
    unfolding h4 by auto
qed

text \<open>
  C10. After \<open>clearBookmarks\<close>, and after \<open>toggleBookmark\<close> from lists that were in step
  (in a browser with a tree, where \<open>toggleBookmark\<close> is defined), the button list
  and the event-ID list have the same length, the button at each index carries the event
  ID at that index, and the bookmark strip is visible exactly when the list is not empty.
\<close>

theorem bookmark_lists_in_step:
  "(bookmarks_aligned (clearBookmarks s)
      \<and> (bookmarkStrip_visible (clearBookmarks s) \<longleftrightarrow> m_Bookmarks (clearBookmarks s) \<noteq> []))
   \<and> (bookmarks_aligned s \<and> events s \<noteq> [] \<longrightarrow>
        (\<exists>s'. toggleBookmark s ev = Inr s' \<and> bookmarks_aligned s'
           \<and> (bookmarkStrip_visible s' \<longleftrightarrow> m_Bookmarks s' \<noteq> [])))"
proof -
  have "bookmarks_aligned (clearBookmarks s)"
    by (simp add: bookmarks_aligned_def clearBookmarks_def)
  moreover have "bookmarkStrip_visible (clearBookmarks s) \<longleftrightarrow> m_Bookmarks (clearBookmarks s) \<noteq> []"
    by (simp add: clearBookmarks_def)
  moreover have "\<exists>s'. toggleBookmark s ev = Inr s' \<and> bookmarks_aligned s'
           \<and> (bookmarkStrip_visible s' \<longleftrightarrow> m_Bookmarks s' \<noteq> [])"
    if "bookmarks_aligned s" "events s \<noteq> []"
  proof -
    from toggleBookmark_result[OF that(2) that(1), of ev] obtain s' where
      t: "toggleBookmark s ev = Inr s'" and al: "bookmarks_aligned s'"
      and vis: "bookmarkStrip_visible s' = (m_BookmarkButtons s' \<noteq> [])"
      by blast
    from al have "m_BookmarkButtons s' \<noteq> [] \<longleftrightarrow> m_Bookmarks s' \<noteq> []"
      by (auto simp: bookmarks_aligned_def)
    with t al vis show ?thesis by blast
  qed
  ultimately show ?thesis by blast
qed

theorem bookmark_lists_in_step_witness:
  "bookmarks_aligned demo_browser \<and> events demo_browser \<noteq> []
   \<and> (\<exists>s'. toggleBookmark demo_browser 5 = Inr s' \<and> bookmarks_aligned s'
          \<and> (bookmarkStrip_visible s' \<longleftrightarrow> m_Bookmarks s' \<noteq> []))"
proof -
  have h1: "events demo_browser \<noteq> []" and h2: "bookmarks_aligned demo_browser"
    by (simp_all add: demo_browser_eq bookmarks_aligned_def)
  from bookmark_lists_in_step [of demo_browser 5] h1 h2 show ?thesis by blast
qed

section \<open>The pipeline state viewer's rows\<close>

text \<open>
  C7. A resource slot row is shown if and only if the slot is referenced by the shader
  (\<open>usedSlot\<close>), or it is bound (\<open>filledSlot\<close>) but not referenced and "show disabled"
  is checked, or it is unbound and "show empty" is checked.
\<close>

theorem showNode_iff:
  "showNode ui usedSlot filledSlot \<longleftrightarrow>
     usedSlot
     \<or> (filledSlot \<and> \<not> usedSlot \<and> showDisabled ui)
     \<or> (\<not> filledSlot \<and> showEmpty ui)"
  by (auto simp: showNode_def)

theorem showNode_iff_witness:
  "showNode \<lparr>showDisabled = True, showEmpty = False\<rparr> False True
   \<and> \<not> showNode \<lparr>showDisabled = True, showEmpty = False\<rparr> False False"
  using showNode_iff [of "\<lparr>showDisabled = True, showEmpty = False\<rparr>" False True]
    showNode_iff [of "\<lparr>showDisabled = True, showEmpty = False\<rparr>" False False]
  by simp

end
